theory Spec2Isabelle
  imports Main "HOL-Library.Word" "HOL-Library.Multiset"
begin

unbundle bit_operations_syntax

section \<open>Parameter set and collaborators\<close>

type_synonym byte = "8 word"
type_synonym gf = "16 word"

text \<open>
  The named constants of package \<open>mceliece348864\<close>. \<open>sysT\<close>, \<open>gfBits\<close> and \<open>sysN\<close> are
  the three independent ones, \<open>PublicKeySize\<close> and \<open>PrivateKeySize\<close> are literals of the
  source; every other constant is derived from them as in the \<open>const\<close> block.
\<close>

record params =
  sysT :: nat
  gfBits :: nat
  sysN :: nat
  PublicKeySize :: nat
  PrivateKeySize :: nat

definition mceliece348864 :: params where
  "mceliece348864 =
     \<lparr>sysT = 64, gfBits = 12, sysN = 3488, PublicKeySize = 261120, PrivateKeySize = 6492\<rparr>"

definition gfMask :: "params \<Rightarrow> 'a::len word" where
  "gfMask P = push_bit (gfBits P) 1 - 1"

definition unusedBits :: "params \<Rightarrow> nat" where
  "unusedBits P = 16 - gfBits P"

definition condBytes :: "params \<Rightarrow> nat" where
  "condBytes P = 2 ^ (gfBits P - 4) * (2 * gfBits P - 1)"

definition irrBytes :: "params \<Rightarrow> nat" where
  "irrBytes P = sysT P * 2"

definition pkNRows :: "params \<Rightarrow> nat" where
  "pkNRows P = sysT P * gfBits P"

definition pkNCols :: "params \<Rightarrow> nat" where
  "pkNCols P = sysN P - pkNRows P"

definition pkRowBytes :: "params \<Rightarrow> nat" where
  "pkRowBytes P = (pkNCols P + 7) div 8"

definition seedSize :: nat where
  "seedSize = 32"

text \<open>The constants local to \<open>deriveKeyPair\<close>, and the length of its buffer \<open>r\<close>.\<close>

definition irrPolys :: "params \<Rightarrow> nat" where
  "irrPolys P = sysN P div 8 + 2 ^ gfBits P * 4"

definition seedIndex :: "params \<Rightarrow> nat" where
  "seedIndex P = sysN P div 8 + 2 ^ gfBits P * 4 + sysT P * 2"

definition permIndex :: "params \<Rightarrow> nat" where
  "permIndex P = sysN P div 8"

definition sBase :: "params \<Rightarrow> nat" where
  "sBase P = 32 + 8 + irrBytes P + condBytes P"

definition rLen :: "params \<Rightarrow> nat" where
  "rLen P = sysN P div 8 + 2 ^ gfBits P * 4 + sysT P * 2 + 32"

text \<open>
  What the Go compiler and the fixed array sizes guarantee for a parameter set: the
  array passed to \<open>pkGen\<close> has the type \<open>[pkNRows * pkRowBytes]byte\<close>, constant slice
  bounds lie inside their arrays, and no index of the fixed loops leaves its array.
\<close>

definition wf_params :: "params \<Rightarrow> bool" where
  "wf_params P \<longleftrightarrow>
     3 \<le> sysT P \<and> 4 \<le> gfBits P \<and> gfBits P \<le> 12 \<and>
     sysN P mod 8 = 0 \<and> pkNRows P mod 8 = 0 \<and>
     pkNRows P < sysN P \<and> sysN P \<le> 2 ^ gfBits P \<and>
     PublicKeySize P = pkNRows P * pkRowBytes P \<and>
     PrivateKeySize P = sBase P + sysN P div 8"

text \<open>
  The collaborators whose code lies outside the three source files.

  Modelled from the spec: \<open>xof\<close> is the SHAKE256 extendable-output hash of
  \<open>internal/sha3\<close> (\<open>NewShake256\<close>, \<open>Write\<close>, \<open>Read\<close>): for an input it either
  fails with an error or yields a byte stream, of which \<open>Read\<close> takes a prefix.
  \<open>gfMul\<close> and \<open>gfInv\<close> are \<open>gf4096.Mul\<close> and \<open>gf4096.Inv\<close>.
  \<open>controlBits\<close> is \<open>mceliece.ControlBitsFromPermutation\<close>: the encoder that serialises
  a permutation into \<open>condBytes\<close> bytes; \<open>controlBits E pi w n k\<close> is byte \<open>k\<close> of
  the encoding.
\<close>

record env =
  xof :: "byte list \<Rightarrow> string + (nat \<Rightarrow> byte)"
  gfMul :: "gf \<Rightarrow> gf \<Rightarrow> gf"
  gfInv :: "gf \<Rightarrow> gf"
  controlBits :: "16 word list \<Rightarrow> nat \<Rightarrow> nat \<Rightarrow> nat \<Rightarrow> byte"

text \<open>Modelled from the spec: \<open>gf4096.Add\<close>, "add(a,b) = bitwise XOR".\<close>

definition gfAdd :: "gf \<Rightarrow> gf \<Rightarrow> gf" where
  "gfAdd a b = a XOR b"

text \<open>
  Modelled from the spec: \<open>mceliece.UInt64Sort\<close>, "given an array of 64-bit integers,
  returns them in ascending numeric order"; it sorts the first \<open>n\<close> elements in place.
\<close>

definition UInt64Sort :: "64 word list \<Rightarrow> nat \<Rightarrow> 64 word list" where
  "UInt64Sort x n = sort (take n x) @ drop n x"

section \<open>Arrays and slices\<close>

text \<open>\<open>for i := 0; i < n; i++ { xs[i] = g(i) }\<close>\<close>

definition fill :: "nat \<Rightarrow> (nat \<Rightarrow> 'a) \<Rightarrow> 'a list \<Rightarrow> 'a list" where
  "fill n g xs = fold (\<lambda>i xs. xs[i := g i]) [0..<n] xs"

text \<open>The built-in \<open>copy(dst[lo:hi], src)\<close>: it copies \<open>min (hi - lo) (len src)\<close> elements.\<close>

definition copy_slice :: "'a list \<Rightarrow> nat \<Rightarrow> nat \<Rightarrow> 'a list \<Rightarrow> 'a list" where
  "copy_slice dst lo hi src =
     (let n = min (hi - lo) (length src)
      in take lo dst @ take n src @ drop (lo + n) dst)"

text \<open>The slice \<open>xs[lo:hi]\<close>, read.\<close>

definition subslice :: "'a list \<Rightarrow> nat \<Rightarrow> nat \<Rightarrow> 'a list" where
  "subslice xs lo hi = take (hi - lo) (drop lo xs)"

text \<open>\<open>mat[c][j] = v\<close>\<close>

definition set2 :: "'a list list \<Rightarrow> nat \<Rightarrow> nat \<Rightarrow> 'a \<Rightarrow> 'a list list" where
  "set2 mat c j v = mat[c := (mat ! c)[j := v]]"

section \<open>Loading and storing\<close>

text \<open>\<open>storeGf(dest[off:], a)\<close>\<close>

definition storeGf :: "byte list \<Rightarrow> nat \<Rightarrow> gf \<Rightarrow> byte list" where
  "storeGf dest off a = dest[off := ucast (a AND 0xFF), off + 1 := ucast (drop_bit 8 a)]"

definition loadGf :: "params \<Rightarrow> byte list \<Rightarrow> gf" where
  "loadGf P src =
     (let a = (ucast (src ! 1) :: 16 word);
          a = push_bit 8 a;
          a = a OR ucast (src ! 0)
      in a AND gfMask P)"

definition load4 :: "byte list \<Rightarrow> 32 word" where
  "load4 inp =
     fold (\<lambda>i ret. push_bit 8 ret OR ucast (inp ! i)) [2, 1, 0] (ucast (inp ! 3))"

text \<open>\<open>store8(out[off:], in)\<close>\<close>

definition store8 :: "byte list \<Rightarrow> nat \<Rightarrow> 64 word \<Rightarrow> byte list" where
  "store8 out off inp =
     out[off := ucast (drop_bit 0 inp AND 0xFF),
         off + 1 := ucast (drop_bit 8 inp AND 0xFF),
         off + 2 := ucast (drop_bit 16 inp AND 0xFF),
         off + 3 := ucast (drop_bit 24 inp AND 0xFF),
         off + 4 := ucast (drop_bit 32 inp AND 0xFF),
         off + 5 := ucast (drop_bit 40 inp AND 0xFF),
         off + 6 := ucast (drop_bit 48 inp AND 0xFF),
         off + 7 := ucast (drop_bit 56 inp AND 0xFF)]"

definition bitRev :: "params \<Rightarrow> gf \<Rightarrow> gf" where
  "bitRev P a =
     (let a = push_bit 8 (a AND 0x00FF) OR drop_bit 8 (a AND 0xFF00);
          a = push_bit 4 (a AND 0x0F0F) OR drop_bit 4 (a AND 0xF0F0);
          a = push_bit 2 (a AND 0x3333) OR drop_bit 2 (a AND 0xCCCC);
          a = push_bit 1 (a AND 0x5555) OR drop_bit 1 (a AND 0xAAAA)
      in drop_bit (unusedBits P) a)"

section \<open>The minimal polynomial\<close>

definition isZeroMask :: "gf \<Rightarrow> 16 word" where
  "isZeroMask element =
     (let t = (ucast element :: 32 word) - 1;
          t = drop_bit 19 t
      in ucast t)"

text \<open>\<open>product[i+j] ^= gf4096.Mul(a[i], b[j])\<close>\<close>

definition polyMul_acc :: "env \<Rightarrow> gf list \<Rightarrow> gf list \<Rightarrow> nat \<Rightarrow> nat \<Rightarrow> gf list \<Rightarrow> gf list" where
  "polyMul_acc E a b i j product =
     product[i + j := product ! (i + j) XOR gfMul E (a ! i) (b ! j)]"

text \<open>The three assignments of the polynomial reduction, at index \<open>i\<close>.\<close>

definition polyMul_reduce :: "params \<Rightarrow> env \<Rightarrow> nat \<Rightarrow> gf list \<Rightarrow> gf list" where
  "polyMul_reduce P E i product =
     (let product = product[i - sysT P + 3 := product ! (i - sysT P + 3) XOR product ! i];
          product = product[i - sysT P + 1 := product ! (i - sysT P + 1) XOR product ! i]
      in product[i - sysT P := product ! (i - sysT P) XOR gfMul E (product ! i) 2])"

definition polyMul :: "params \<Rightarrow> env \<Rightarrow> gf list \<Rightarrow> gf list \<Rightarrow> gf list \<Rightarrow> gf list" where
  "polyMul P E out a b =
     (let product = replicate (sysT P * 2 - 1) 0;
          product = fold (\<lambda>i. fold (polyMul_acc E a b i) [0..<sysT P]) [0..<sysT P] product;
          product = fold (polyMul_reduce P E) (rev [sysT P..<(sysT P - 1) * 2 + 1]) product
      in fill (sysT P) (nth product) out)"

text \<open>\<open>mat[c][j] ^= mat[c][k] & mask\<close>\<close>

definition mp_merge :: "nat \<Rightarrow> nat \<Rightarrow> 16 word \<Rightarrow> nat \<Rightarrow> gf list list \<Rightarrow> gf list list" where
  "mp_merge j k m c mat = set2 mat c j (mat ! c ! j XOR (mat ! c ! k AND m))"

text \<open>The repair of the pivot of column \<open>j\<close>: the body of the loop over \<open>k\<close>, and the loop.\<close>

definition mp_repair_col :: "params \<Rightarrow> nat \<Rightarrow> nat \<Rightarrow> gf list list \<Rightarrow> gf list list" where
  "mp_repair_col P j k mat =
     (let m = isZeroMask (mat ! j ! j)
      in fold (mp_merge j k m) [j..<sysT P + 1] mat)"

definition mp_repair :: "params \<Rightarrow> nat \<Rightarrow> gf list list \<Rightarrow> gf list list" where
  "mp_repair P j mat = fold (mp_repair_col P j) [j + 1..<sysT P] mat"

text \<open>\<open>mat[c][j] = gf4096.Mul(mat[c][j], inv)\<close>\<close>

definition mp_scale :: "env \<Rightarrow> nat \<Rightarrow> gf \<Rightarrow> nat \<Rightarrow> gf list list \<Rightarrow> gf list list" where
  "mp_scale E j iv c mat = set2 mat c j (gfMul E (mat ! c ! j) iv)"

definition mp_normalize :: "params \<Rightarrow> env \<Rightarrow> nat \<Rightarrow> gf list list \<Rightarrow> gf list list" where
  "mp_normalize P E j mat = fold (mp_scale E j (gfInv E (mat ! j ! j))) [0..<sysT P + 1] mat"

text \<open>\<open>mat[c][k] ^= gf4096.Mul(mat[c][j], t)\<close>\<close>

definition mp_sub :: "env \<Rightarrow> nat \<Rightarrow> nat \<Rightarrow> gf \<Rightarrow> nat \<Rightarrow> gf list list \<Rightarrow> gf list list" where
  "mp_sub E j k t c mat = set2 mat c k (mat ! c ! k XOR gfMul E (mat ! c ! j) t)"

definition mp_eliminate_col :: "params \<Rightarrow> env \<Rightarrow> nat \<Rightarrow> nat \<Rightarrow> gf list list \<Rightarrow> gf list list" where
  "mp_eliminate_col P E j k mat =
     (if k \<noteq> j then fold (mp_sub E j k (mat ! j ! k)) [0..<sysT P + 1] mat else mat)"

definition mp_eliminate :: "params \<Rightarrow> env \<Rightarrow> nat \<Rightarrow> gf list list \<Rightarrow> gf list list" where
  "mp_eliminate P E j mat = fold (mp_eliminate_col P E j) [0..<sysT P] mat"

text \<open>One round of the loop over \<open>j\<close>; \<open>None\<close> is the \<open>return false\<close>.\<close>

definition mp_column :: "params \<Rightarrow> env \<Rightarrow> nat \<Rightarrow> gf list list option \<Rightarrow> gf list list option" where
  "mp_column P E j ms =
     (case ms of
        None \<Rightarrow> None
      | Some mat \<Rightarrow>
          let mat = mp_repair P j mat
          in if mat ! j ! j = 0 then None
             else Some (mp_eliminate P E j (mp_normalize P E j mat)))"

text \<open>\<open>polyMul(&mat[i], &mat[i-1], f)\<close>\<close>

definition mp_power :: "params \<Rightarrow> env \<Rightarrow> gf list \<Rightarrow> nat \<Rightarrow> gf list list \<Rightarrow> gf list list" where
  "mp_power P E f i mat = mat[i := polyMul P E (mat ! i) (mat ! (i - 1)) f]"

text \<open>The matrix before the elimination: rows \<open>1, f, f\<^sup>2, \<dots>, f\<^sup>t\<close>.\<close>

definition mp_matrix :: "params \<Rightarrow> env \<Rightarrow> gf list \<Rightarrow> gf list list" where
  "mp_matrix P E f =
     (let mat = replicate (sysT P + 1) (replicate (sysT P) 0);
          mat = set2 mat 0 0 1;
          mat = fold (\<lambda>i mat. set2 mat 0 i 0) [1..<sysT P] mat;
          mat = fold (\<lambda>i mat. set2 mat 1 i (f ! i)) [0..<sysT P] mat
      in fold (mp_power P E f) [2..<sysT P + 1] mat)"

text \<open>\<open>minimalPolynomial(out, f)\<close> returns its boolean and the array \<open>out\<close>.\<close>

definition minimalPolynomial :: "params \<Rightarrow> env \<Rightarrow> gf list \<Rightarrow> gf list \<Rightarrow> bool \<times> gf list" where
  "minimalPolynomial P E out f =
     (case fold (mp_column P E) [0..<sysT P] (Some (mp_matrix P E f)) of
        None \<Rightarrow> (False, out)
      | Some mat \<Rightarrow> (True, fill (sysT P) (nth (mat ! sysT P)) out))"

section \<open>The public key\<close>

text \<open>\<open>r = gf4096.Mul(r, a); r = gf4096.Add(r, f[i])\<close>\<close>

definition eval_step :: "env \<Rightarrow> gf list \<Rightarrow> gf \<Rightarrow> nat \<Rightarrow> gf \<Rightarrow> gf" where
  "eval_step E f a i r = gfAdd (gfMul E r a) (f ! i)"

definition eval :: "params \<Rightarrow> env \<Rightarrow> gf list \<Rightarrow> gf \<Rightarrow> gf" where
  "eval P E f a = fold (eval_step E f a) (rev [0..<sysT P]) (f ! sysT P)"

definition root :: "params \<Rightarrow> env \<Rightarrow> gf list \<Rightarrow> gf list \<Rightarrow> gf list \<Rightarrow> gf list" where
  "root P E out f l = fill (sysN P) (\<lambda>i. eval P E f (l ! i)) out"

text \<open>\<open>b <<= 1; b |= byte(inv[j+d]>>k) & 1\<close>\<close>

definition pack_step :: "gf list \<Rightarrow> nat \<Rightarrow> nat \<Rightarrow> nat \<Rightarrow> byte \<Rightarrow> byte" where
  "pack_step invs j k d b = push_bit 1 b OR (ucast (drop_bit k (invs ! (j + d))) AND 1)"

text \<open>The byte \<open>b\<close> that packs bit \<open>k\<close> of \<open>inv[j+7], \<dots>, inv[j+0]\<close>.\<close>

definition pack_bits :: "gf list \<Rightarrow> nat \<Rightarrow> nat \<Rightarrow> byte" where
  "pack_bits invs j k =
     fold (pack_step invs j k) [6, 5, 4, 3, 2, 1, 0] (ucast (drop_bit k (invs ! (j + 7))) AND 1)"

text \<open>\<open>mat[i*gfBits+k][j/8] = b\<close>\<close>

definition pk_cell :: "params \<Rightarrow> gf list \<Rightarrow> nat \<Rightarrow> nat \<Rightarrow> nat \<Rightarrow> byte list list \<Rightarrow> byte list list" where
  "pk_cell P invs i j k mat = set2 mat (i * gfBits P + k) (j div 8) (pack_bits invs j k)"

definition pk_cells :: "params \<Rightarrow> gf list \<Rightarrow> nat \<Rightarrow> nat \<Rightarrow> byte list list \<Rightarrow> byte list list" where
  "pk_cells P invs i j mat = fold (pk_cell P invs i j) [0..<gfBits P] mat"

text \<open>\<open>inv[j] = gf4096.Mul(inv[j], L[j])\<close>\<close>

definition pk_advance :: "env \<Rightarrow> gf list \<Rightarrow> nat \<Rightarrow> gf list \<Rightarrow> gf list" where
  "pk_advance E L j invs = invs[j := gfMul E (invs ! j) (L ! j)]"

text \<open>
  Filling the matrix: one round of the loop over \<open>i\<close>, with the matrix and \<open>inv\<close> as
  its state; \<open>j\<close> runs over the multiples of 8 below \<open>sysN\<close>.
\<close>

definition pk_fill_round ::
  "params \<Rightarrow> env \<Rightarrow> gf list \<Rightarrow> nat \<Rightarrow> byte list list \<times> gf list \<Rightarrow> byte list list \<times> gf list" where
  "pk_fill_round P E L i s =
     (fold (pk_cells P (snd s) i) (map (\<lambda>q. 8 * q) [0..<(sysN P + 7) div 8]) (fst s),
      fold (pk_advance E L) [0..<sysN P] (snd s))"

definition pk_fill ::
  "params \<Rightarrow> env \<Rightarrow> gf list \<Rightarrow> byte list list \<times> gf list \<Rightarrow> byte list list \<times> gf list" where
  "pk_fill P E L s = fold (pk_fill_round P E L) [0..<sysT P] s"

text \<open>\<open>mat[dst][c] ^= mat[src][c] & mask\<close>, and its loop over \<open>c\<close>.\<close>

definition cell_xor :: "nat \<Rightarrow> nat \<Rightarrow> byte \<Rightarrow> nat \<Rightarrow> byte list list \<Rightarrow> byte list list" where
  "cell_xor dst src m c mat = set2 mat dst c (mat ! dst ! c XOR (mat ! src ! c AND m))"

definition row_xor :: "params \<Rightarrow> nat \<Rightarrow> nat \<Rightarrow> byte \<Rightarrow> byte list list \<Rightarrow> byte list list" where
  "row_xor P dst src m mat = fold (cell_xor dst src m) [0..<sysN P div 8] mat"

text \<open>The search for a pivot of row \<open>row = i * 8 + j\<close>: the body of the loop over \<open>k\<close>.\<close>

definition gauss_pivot :: "params \<Rightarrow> nat \<Rightarrow> nat \<Rightarrow> nat \<Rightarrow> nat \<Rightarrow> byte list list \<Rightarrow> byte list list" where
  "gauss_pivot P row i j k mat =
     (let mask = mat ! row ! i XOR mat ! k ! i;
          mask = drop_bit j mask;
          mask = mask AND 1;
          mask = - mask
      in row_xor P row k mask mat)"

text \<open>Clearing the column of the pivot in row \<open>k\<close>: the body of the second loop over \<open>k\<close>.\<close>

definition gauss_clear :: "params \<Rightarrow> nat \<Rightarrow> nat \<Rightarrow> nat \<Rightarrow> nat \<Rightarrow> byte list list \<Rightarrow> byte list list" where
  "gauss_clear P row i j k mat =
     (if k \<noteq> row then
        let mask = drop_bit j (mat ! k ! i);
            mask = mask AND 1;
            mask = - mask
        in row_xor P k row mask mat
      else mat)"

text \<open>
  One row of the Gaussian elimination, \<open>row = i * 8 + j\<close>; \<open>None\<close> is the
  \<open>return false\<close> of a matrix that is not systematic. The \<open>break\<close> at
  \<open>row \<ge> pkNRows\<close> leaves the matrix as it is, and so does every later \<open>j\<close>.
\<close>

definition gauss_row :: "params \<Rightarrow> nat \<Rightarrow> nat \<Rightarrow> byte list list option \<Rightarrow> byte list list option" where
  "gauss_row P i j ms =
     (case ms of
        None \<Rightarrow> None
      | Some mat \<Rightarrow>
          if i * 8 + j \<ge> pkNRows P then Some mat
          else
            let mat = fold (gauss_pivot P (i * 8 + j) i j) [i * 8 + j + 1..<pkNRows P] mat
            in if drop_bit j (mat ! (i * 8 + j) ! i) AND 1 = 0 then None
               else Some (fold (gauss_clear P (i * 8 + j) i j) [0..<pkNRows P] mat))"

definition gauss_block :: "params \<Rightarrow> nat \<Rightarrow> byte list list option \<Rightarrow> byte list list option" where
  "gauss_block P i ms = fold (gauss_row P i) [0..<8] ms"

definition gauss :: "params \<Rightarrow> byte list list \<Rightarrow> byte list list option" where
  "gauss P mat = fold (gauss_block P) [0..<(pkNRows P + 7) div 8] (Some mat)"

text \<open>\<open>copy(pk[i*pkRowBytes:], mat[i][pkNRows/8:pkNRows/8+pkRowBytes])\<close>\<close>

definition pk_row :: "params \<Rightarrow> byte list list \<Rightarrow> nat \<Rightarrow> byte list \<Rightarrow> byte list" where
  "pk_row P mat i pk =
     copy_slice pk (i * pkRowBytes P) (length pk)
       (subslice (mat ! i) (pkNRows P div 8) (pkNRows P div 8 + pkRowBytes P))"

text \<open>The sort keys: \<open>buf[i] = uint64(perm[i]); buf[i] <<= 31; buf[i] |= uint64(i)\<close>.\<close>

definition sort_key :: "32 word list \<Rightarrow> nat \<Rightarrow> 64 word" where
  "sort_key perm i = push_bit 31 (ucast (perm ! i)) OR of_nat i"

text \<open>The test of the loop that rejects two adjacent keys of the same priority.\<close>

definition same_priority :: "64 word list \<Rightarrow> nat \<Rightarrow> bool" where
  "same_priority buf i \<longleftrightarrow> drop_bit 31 (buf ! (i - 1)) = drop_bit 31 (buf ! i)"

text \<open>
  \<open>pkGen(pk, sk, perm, pi, pivots)\<close> returns its boolean and the arrays \<open>pk\<close> and
  \<open>pi\<close>, which it writes through their pointers. \<open>pivots\<close> is passed by value.
\<close>

definition pkGen ::
  "params \<Rightarrow> env \<Rightarrow> byte list \<Rightarrow> byte list \<Rightarrow> 32 word list \<Rightarrow> 16 word list \<Rightarrow> 64 word
     \<Rightarrow> bool \<times> byte list \<times> 16 word list" where
  "pkGen P E pk sk perm pi pivots =
     (let buf = replicate (2 ^ gfBits P) (0 :: 64 word);
          mat = replicate (pkNRows P) (replicate (sysN P div 8) (0 :: byte));
          g = replicate (sysT P + 1) (0 :: gf);
          L = replicate (sysN P) (0 :: gf);
          invs = replicate (sysN P) (0 :: gf);
          g = g[sysT P := 1];
          g = fill (sysT P) (\<lambda>i. loadGf P (drop (2 * i) sk)) g;
          buf = fill (2 ^ gfBits P) (sort_key perm) buf;
          buf = UInt64Sort buf (2 ^ gfBits P)
      in if list_ex (same_priority buf) [1..<2 ^ gfBits P]
         then (False, pk, pi)
         else
           let pi = fill (2 ^ gfBits P) (\<lambda>i. ucast (buf ! i AND gfMask P)) pi;
               L = fill (sysN P) (\<lambda>i. bitRev P (pi ! i)) L;
               invs = root P E invs g L;
               invs = fold (\<lambda>i invs. invs[i := gfInv E (invs ! i)]) [0..<sysN P] invs
           in case gauss P (fst (pk_fill P E L (mat, invs))) of
                None \<Rightarrow> (False, pk, pi)
              | Some mat \<Rightarrow> (True, fold (pk_row P mat) [0..<pkNRows P] pk, pi))"

section \<open>The key-pair driver\<close>

text \<open>
  \<open>shake256(output, input)\<close> returns its error and the buffer \<open>output\<close>, which it
  fills from the stream.
\<close>

definition shake256 :: "env \<Rightarrow> byte list \<Rightarrow> byte list \<Rightarrow> string option \<times> byte list" where
  "shake256 E output input =
     (case xof E input of
        Inl err \<Rightarrow> (Some err, output)
      | Inr stream \<Rightarrow> (None, fill (length output) stream output))"

text \<open>The variables of \<open>deriveKeyPair\<close> that live across the iterations of its loop.\<close>

record loop_state =
  st_pk :: "byte list"
  st_sk :: "byte list"
  st_seed :: "byte list"
  st_r :: "byte list"
  st_f :: "gf list"
  st_irr :: "gf list"
  st_perm :: "32 word list"
  st_pi :: "16 word list"

definition pivots_init :: "64 word" where
  "pivots_init = 0xFFFFFFFF"

text \<open>What a call returns: a key pair, or the panic it raised.\<close>

datatype outcome = Panic string | Keys "byte list" "byte list"

datatype step = Again loop_state | Done outcome

text \<open>The declarations before the loop and \<open>copy(seed[1:], entropy[:])\<close>.\<close>

definition init_state :: "params \<Rightarrow> byte list \<Rightarrow> loop_state" where
  "init_state P entropy =
     \<lparr>st_pk = replicate (PublicKeySize P) 0,
      st_sk = replicate (PrivateKeySize P) 0,
      st_seed = copy_slice (64 # replicate 32 0) 1 33 entropy,
      st_r = replicate (rLen P) 0,
      st_f = replicate (sysT P) 0,
      st_irr = replicate (sysT P) 0,
      st_perm = replicate (2 ^ gfBits P) 0,
      st_pi = replicate (2 ^ gfBits P) 0\<rparr>"

text \<open>One iteration of the loop: \<open>Again\<close> is a \<open>continue\<close>, \<open>Done\<close> a return or a panic.\<close>

definition iteration :: "params \<Rightarrow> env \<Rightarrow> loop_state \<Rightarrow> step" where
  "iteration P E st =
     (case shake256 E (st_r st) (subslice (st_seed st) 0 33) of
        (Some err, r) \<Rightarrow> Done (Panic err)
      | (None, r) \<Rightarrow>
          let sk = copy_slice (st_sk st) 0 32 (drop 1 (st_seed st));
              seed = copy_slice (st_seed st) 1 (length (st_seed st)) (drop (length r - 32) r);
              temp = subslice r (irrPolys P) (seedIndex P);
              f = fill (sysT P) (\<lambda>i. loadGf P (drop (2 * i) temp)) (st_f st);
              (ok, irr) = minimalPolynomial P E (st_irr st) f
          in if \<not> ok
             then Again (st\<lparr>st_sk := sk, st_seed := seed, st_r := r, st_f := f, st_irr := irr\<rparr>)
             else
               let sk = fold (\<lambda>i sk. storeGf sk (40 + 2 * i) (irr ! i)) [0..<sysT P] sk;
                   temp = subslice r (permIndex P) (irrPolys P);
                   perm = fill (2 ^ gfBits P) (\<lambda>i. load4 (drop (4 * i) temp)) (st_perm st);
                   (ok, pk, pi) = pkGen P E (st_pk st) (subslice sk 40 (40 + irrBytes P)) perm
                                    (st_pi st) pivots_init
               in if \<not> ok
                  then Again (st\<lparr>st_pk := pk, st_sk := sk, st_seed := seed, st_r := r, st_f := f,
                                  st_irr := irr, st_perm := perm, st_pi := pi\<rparr>)
                  else
                    let sk = take (32 + 8 + irrBytes P) sk
                             @ fill (condBytes P)
                                 (\<lambda>k. controlBits E pi (gfBits P) (2 ^ gfBits P) k)
                                 (drop (32 + 8 + irrBytes P) sk);
                        sk = copy_slice sk (sBase P) (sBase P + sysN P div 8)
                               (subslice r 0 (sysN P div 8));
                        sk = store8 sk 32 pivots_init
                    in Done (Keys pk sk))"

partial_function (option) deriveKeyPair_loop :: "params \<Rightarrow> env \<Rightarrow> loop_state \<Rightarrow> outcome option" where
  "deriveKeyPair_loop P E st =
     (case iteration P E st of
        Again st' \<Rightarrow> deriveKeyPair_loop P E st'
      | Done out \<Rightarrow> Some out)"

text \<open>\<open>None\<close>: the loop never ends.\<close>

definition deriveKeyPair :: "params \<Rightarrow> env \<Rightarrow> byte list \<Rightarrow> outcome option" where
  "deriveKeyPair P E entropy = deriveKeyPair_loop P E (init_state P entropy)"

text \<open>The method \<open>DeriveKeyPair\<close> of the scheme.\<close>

definition DeriveKeyPair :: "params \<Rightarrow> env \<Rightarrow> byte list \<Rightarrow> outcome option" where
  "DeriveKeyPair P E seed =
     (if length seed \<noteq> seedSize
      then Some (Panic ''seed must be of length EncapsulationSeedSize'')
      else deriveKeyPair P E seed)"

section \<open>Marshalling of the private key\<close>

text \<open>
  \<open>MarshalBinary\<close> of a private key with the array \<open>sk\<close>; it returns the bytes and a
  nil error.
\<close>

definition MarshalBinary :: "params \<Rightarrow> byte list \<Rightarrow> byte list" where
  "MarshalBinary P sk =
     copy_slice (replicate (PrivateKeySize P) 0) 0 (PrivateKeySize P) sk"

text \<open>
  \<open>UnmarshalBinaryPrivateKey\<close>: \<open>Inl\<close> is the error \<open>kem.ErrPrivKeySize\<close>, \<open>Inr\<close> the array
  of the private key it returns, which is the one of the composite literal
  \<open>&PrivateKey{}\<close>; the local array \<open>sk\<close> that received the copy is not used.
\<close>

datatype kem_error = ErrPrivKeySize

definition UnmarshalBinaryPrivateKey :: "params \<Rightarrow> byte list \<Rightarrow> kem_error + byte list" where
  "UnmarshalBinaryPrivateKey P buf =
     (if length buf \<noteq> PrivateKeySize P then Inl ErrPrivKeySize
      else
        let sk = replicate (PrivateKeySize P) (0 :: byte);
            sk = copy_slice sk 0 (length sk) buf
        in Inr (replicate (PrivateKeySize P) 0))"

section \<open>The minimal polynomial in the words of the specification\<close>

text \<open>
  "For column \<open>j\<close>, if the pivot \<open>mat[j][j]\<close> is zero, attempt to fix it by XORing in a
  later column \<open>k>j\<close>": the rows \<open>j\<close> to \<open>t\<close> of column \<open>k\<close> are added to column
  \<open>j\<close> when the pivot is zero, and nothing happens otherwise.
\<close>

definition spec_add_col :: "nat \<Rightarrow> nat \<Rightarrow> nat \<Rightarrow> gf list list \<Rightarrow> gf list list" where
  "spec_add_col j k c mat = set2 mat c j (mat ! c ! j XOR mat ! c ! k)"

definition spec_repair_col :: "params \<Rightarrow> nat \<Rightarrow> nat \<Rightarrow> gf list list \<Rightarrow> gf list list" where
  "spec_repair_col P j k mat =
     (if mat ! j ! j = 0 then fold (spec_add_col j k) [j..<sysT P + 1] mat else mat)"

definition spec_repair :: "params \<Rightarrow> nat \<Rightarrow> gf list list \<Rightarrow> gf list list" where
  "spec_repair P j mat = fold (spec_repair_col P j) [j + 1..<sysT P] mat"

text \<open>
  "If after this the pivot is still zero, the polynomial is rejected. Otherwise normalize
  the pivot row by its inverse and eliminate all other columns."
\<close>

definition spec_column :: "params \<Rightarrow> env \<Rightarrow> nat \<Rightarrow> gf list list option \<Rightarrow> gf list list option" where
  "spec_column P E j ms =
     (case ms of
        None \<Rightarrow> None
      | Some mat \<Rightarrow>
          if spec_repair P j mat ! j ! j = 0 then None
          else Some (mp_eliminate P E j (mp_normalize P E j (spec_repair P j mat))))"

text \<open>
  "After processing all t columns, the last row (\<open>mat[t]\<close>) is the answer"; a failure
  leaves the output as it was.
\<close>

definition spec_minimalPolynomial :: "params \<Rightarrow> env \<Rightarrow> gf list \<Rightarrow> gf list \<Rightarrow> bool \<times> gf list" where
  "spec_minimalPolynomial P E out f =
     (case fold (spec_column P E) [0..<sysT P] (Some (mp_matrix P E f)) of
        None \<Rightarrow> (False, out)
      | Some mat \<Rightarrow> (True, mat ! sysT P))"

section \<open>Notions used in the statements\<close>

text \<open>The sizes that the array types of \<open>deriveKeyPair\<close> give its variables.\<close>

definition sized :: "params \<Rightarrow> loop_state \<Rightarrow> bool" where
  "sized P st \<longleftrightarrow>
     length (st_pk st) = PublicKeySize P \<and> length (st_sk st) = PrivateKeySize P \<and>
     length (st_seed st) = 33 \<and> length (st_r st) = rLen P \<and>
     length (st_f st) = sysT P \<and> length (st_irr st) = sysT P \<and>
     length (st_perm st) = 2 ^ gfBits P \<and> length (st_pi st) = 2 ^ gfBits P"

text \<open>
  The buffer \<open>r\<close> after the expansion of the 32-byte seed \<open>s\<close> under the domain
  separation byte 64, the seed of the next iteration (the last 32 bytes of \<open>r\<close>), and
  the seed of iteration \<open>i\<close> of a call on \<open>s\<close>.
\<close>

definition expand :: "params \<Rightarrow> env \<Rightarrow> byte list \<Rightarrow> byte list" where
  "expand P E s = snd (shake256 E (replicate (rLen P) 0) (64 # s))"

definition next_seed :: "params \<Rightarrow> env \<Rightarrow> byte list \<Rightarrow> byte list" where
  "next_seed P E s = drop (rLen P - 32) (expand P E s)"

primrec seed_seq :: "params \<Rightarrow> env \<Rightarrow> byte list \<Rightarrow> nat \<Rightarrow> byte list" where
  "seed_seq P E s 0 = s"
| "seed_seq P E s (Suc i) = next_seed P E (seed_seq P E s i)"

text \<open>
  The candidate sequence \<open>f\<close> and the words \<open>perm\<close> that an iteration reads from \<open>r\<close>,
  and the two bytes per coefficient that it stores for \<open>irr\<close>.
\<close>

definition cand_f :: "params \<Rightarrow> byte list \<Rightarrow> gf list" where
  "cand_f P r =
     map (\<lambda>i. loadGf P (drop (2 * i) (subslice r (irrPolys P) (seedIndex P)))) [0..<sysT P]"

definition cand_perm :: "params \<Rightarrow> byte list \<Rightarrow> 32 word list" where
  "cand_perm P r =
     map (\<lambda>i. load4 (drop (4 * i) (subslice r (permIndex P) (irrPolys P)))) [0..<2 ^ gfBits P]"

definition irr_bytes :: "gf list \<Rightarrow> byte list" where
  "irr_bytes irr = concat (map (\<lambda>a. [ucast (a AND 0xFF), ucast (drop_bit 8 a)]) irr)"

text \<open>The sorted keys of \<open>pkGen\<close>, and its matrix before the Gaussian elimination.\<close>

definition sorted_keys :: "params \<Rightarrow> 32 word list \<Rightarrow> 64 word list" where
  "sorted_keys P perm =
     UInt64Sort (fill (2 ^ gfBits P) (sort_key perm) (replicate (2 ^ gfBits P) 0)) (2 ^ gfBits P)"

definition parity_matrix :: "params \<Rightarrow> env \<Rightarrow> byte list \<Rightarrow> 16 word list \<Rightarrow> byte list list" where
  "parity_matrix P E sk pi =
     (let g = fill (sysT P) (\<lambda>i. loadGf P (drop (2 * i) sk)) ((replicate (sysT P + 1) 0)[sysT P := 1]);
          L = fill (sysN P) (\<lambda>i. bitRev P (pi ! i)) (replicate (sysN P) 0);
          invs = root P E (replicate (sysN P) 0) g L;
          invs = fold (\<lambda>i invs. invs[i := gfInv E (invs ! i)]) [0..<sysN P] invs
      in fst (pk_fill P E L (replicate (pkNRows P) (replicate (sysN P div 8) 0), invs)))"

text \<open>
  What one iteration computes from its seed \<open>s\<close> alone: a panic, a rejection, or the key
  pair with the private key written as the sequence of its fields.
\<close>

datatype attempt = Failure string | Rejected | Accepted "byte list" "byte list"

definition attempt :: "params \<Rightarrow> env \<Rightarrow> byte list \<Rightarrow> attempt" where
  "attempt P E s =
     (case xof E (64 # s) of
        Inl err \<Rightarrow> Failure err
      | Inr stream \<Rightarrow>
          let r = expand P E s;
              (ok, irr) = minimalPolynomial P E (replicate (sysT P) 0) (cand_f P r)
          in if \<not> ok then Rejected
             else
               let (ok, pk, pi) = pkGen P E (replicate (PublicKeySize P) 0) (irr_bytes irr)
                                    (cand_perm P r) (replicate (2 ^ gfBits P) 0) pivots_init
               in if \<not> ok then Rejected
                  else Accepted pk
                         (s @ [0xFF, 0xFF, 0xFF, 0xFF, 0, 0, 0, 0] @ irr_bytes irr
                          @ map (controlBits E pi (gfBits P) (2 ^ gfBits P)) [0..<condBytes P]
                          @ take (sysN P div 8) r))"

text \<open>The result of an attempt that a returned outcome stands for.\<close>

definition verdict :: "outcome \<Rightarrow> attempt" where
  "verdict y = (case y of Panic err \<Rightarrow> Failure err | Keys pk sk \<Rightarrow> Accepted pk sk)"

text \<open>
  The first iteration of a call on the seed \<open>s\<close> ends in a \<open>continue\<close>, or returns a
  key pair.
\<close>

definition rejects :: "params \<Rightarrow> env \<Rightarrow> byte list \<Rightarrow> bool" where
  "rejects P E s \<longleftrightarrow>
     (case iteration P E (init_state P s) of Again st' \<Rightarrow> True | Done out \<Rightarrow> False)"

definition accepts :: "params \<Rightarrow> env \<Rightarrow> byte list \<Rightarrow> bool" where
  "accepts P E s \<longleftrightarrow>
     (case iteration P E (init_state P s) of
        Again st' \<Rightarrow> False
      | Done out \<Rightarrow> (case out of Panic err \<Rightarrow> False | Keys pk sk \<Rightarrow> True))"

section \<open>A small instance for concrete checks\<close>

text \<open>
  A parameter set with the shape of the source's (24 matrix rows of 4 bytes, the field
  of 64 elements), and collaborators for it: the field arithmetic modulo \<open>x\<^sup>6 + x + 1\<close>,
  a byte stream computed from the sum of the input bytes, and an encoder that writes
  one byte per entry of the permutation. An input whose first seed byte is 1 gets a
  stream whose permutation words are all zero.
\<close>

definition toy :: params where
  "toy = \<lparr>sysT = 4, gfBits = 6, sysN = 32, PublicKeySize = 24, PrivateKeySize = 96\<rparr>"

definition toy_mul_step :: "gf \<Rightarrow> gf \<Rightarrow> nat \<Rightarrow> gf \<Rightarrow> gf" where
  "toy_mul_step a b i acc =
     (let acc = push_bit 1 acc;
          acc = (if bit acc 6 then acc XOR 0x43 else acc)
      in if bit b (5 - i) then acc XOR (a AND 0x3F) else acc)"

definition toy_mul :: "gf \<Rightarrow> gf \<Rightarrow> gf" where
  "toy_mul a b = fold (toy_mul_step a b) [0..<6] 0"

definition toy_inv :: "gf \<Rightarrow> gf" where
  "toy_inv a =
     (let a2 = toy_mul a a; a4 = toy_mul a2 a2; a8 = toy_mul a4 a4;
          a16 = toy_mul a8 a8; a32 = toy_mul a16 a16
      in toy_mul a2 (toy_mul a4 (toy_mul a8 (toy_mul a16 a32))))"

definition toy_stream :: "nat \<Rightarrow> nat \<Rightarrow> byte" where
  "toy_stream s i = of_nat (((s + i) * (s + 3 * i + 7) * 37 + i * i * 101 + s * 13) mod 256)"

definition toy_flat :: "nat \<Rightarrow> byte" where
  "toy_flat i = (if 260 \<le> i \<and> i < 268 then toy_stream 64 i else 0)"

definition toy_xof :: "byte list \<Rightarrow> string + (nat \<Rightarrow> byte)" where
  "toy_xof inp =
     Inr (if inp ! 1 = 1 then toy_flat else toy_stream (sum_list (map unat inp)))"

definition toy_cb :: "16 word list \<Rightarrow> nat \<Rightarrow> nat \<Rightarrow> nat \<Rightarrow> byte" where
  "toy_cb pi w n k = ucast (pi ! k) XOR of_nat k"

definition toy_env :: env where
  "toy_env = \<lparr>xof = toy_xof, gfMul = toy_mul, gfInv = toy_inv, controlBits = toy_cb\<rparr>"

section \<open>Auxiliary lemmas\<close>

lemma isZeroMask_eq: "isZeroMask a = (if a = 0 then 0x1FFF else 0)"
proof (cases "a = 0")
  case True
  have "(ucast (drop_bit 19 (- 1 :: 32 word)) :: 16 word) = 0x1FFF"
    by (simp add: drop_bit_eq_div)
  with True show ?thesis by (simp add: isZeroMask_def)
next
  case False
  define x where "x = (ucast a :: 32 word)"
  have lt: "unat a < 2 ^ 16" using unsigned_less [of a] by simp
  have ux: "unat x = unat a"
    using lt by (simp add: x_def unsigned_ucast_eq take_bit_nat_eq_self)
  have "unat a \<noteq> 0" using False by (simp add: unat_gt_0)
  with ux have "x \<noteq> 0" by auto
  then have "unat (x - 1) = unat x - 1" by (rule unat_minus_one)
  with ux lt have "unat (x - 1) < 2 ^ 19" by simp
  then have "unat (drop_bit 19 (x - 1)) = 0"
    unfolding unat_drop_bit_eq by (simp add: drop_bit_eq_div)
  then have "drop_bit 19 (x - 1) = 0" by (simp only: unat_eq_0)
  with False show ?thesis by (simp add: isZeroMask_def x_def)
qed

lemma fold_invariant:
  assumes "Q s" and "\<And>x s. x \<in> set xs \<Longrightarrow> Q s \<Longrightarrow> Q (f x s)"
  shows "Q (fold f xs s)"
  using assms by (induction xs arbitrary: s) auto

lemma fill_Suc: "fill (Suc n) g xs = (fill n g xs)[n := g n]"
  by (simp add: fill_def)

lemma length_fill [simp]: "length (fill n g xs) = length xs"
  by (induction n) (simp_all add: fill_Suc, simp add: fill_def)

lemma fill_prefix: "n \<le> length xs \<Longrightarrow> fill n g xs = map g [0..<n] @ drop n xs"
proof (induction n)
  case 0
  then show ?case by (simp add: fill_def)
next
  case (Suc n)
  then have "fill n g xs = map g [0..<n] @ drop n xs" by simp
  moreover from Suc.prems have "drop n xs = xs ! n # drop (Suc n) xs"
    by (simp add: Cons_nth_drop_Suc)
  ultimately show ?case
    by (simp add: fill_Suc list_update_append)
qed

lemma fill_eq_map: "length xs = n \<Longrightarrow> fill n g xs = map g [0..<n]"
  by (simp add: fill_prefix)

lemma length_copy_slice:
  "hi \<le> length dst \<Longrightarrow> lo \<le> hi \<Longrightarrow> length (copy_slice dst lo hi src) = length dst"
  by (simp add: copy_slice_def Let_def min_def)

lemma copy_slice_exact:
  "hi \<le> length dst \<Longrightarrow> lo \<le> hi \<Longrightarrow> hi - lo \<le> length src \<Longrightarrow>
   copy_slice dst lo hi src = take lo dst @ take (hi - lo) src @ drop hi dst"
  by (simp add: copy_slice_def Let_def min_def)

lemma length_set2 [simp]: "length (set2 mat c j v) = length mat"
  by (simp add: set2_def)

lemma map_length_set2 [simp]: "map length (set2 mat c j v) = map length mat"
  by (simp add: set2_def map_update) (metis list_update_id map_update length_list_update nth_map list_update_beyond not_le_imp_less)


lemma map_length_fold:
  assumes "\<And>x m. map length (f x m) = map length m"
  shows "map length (fold f xs mat) = map length mat"
  using assms by (induction xs arbitrary: mat) auto

lemma map_length_row_xor [simp]: "map length (row_xor P dst src m mat) = map length mat"
  unfolding row_xor_def by (rule map_length_fold) (simp add: cell_xor_def)

lemma map_length_gauss_pivot [simp]: "map length (gauss_pivot P row i j k mat) = map length mat"
  by (simp add: gauss_pivot_def Let_def)

lemma map_length_gauss_clear [simp]: "map length (gauss_clear P row i j k mat) = map length mat"
  by (simp add: gauss_clear_def Let_def)

lemma gauss_row_dims:
  assumes "gauss_row P i j ms = Some mat'"
  shows "\<exists>mat. ms = Some mat \<and> map length mat' = map length mat"
proof (cases ms)
  case None
  with assms show ?thesis by (simp add: gauss_row_def)
next
  case (Some mat)
  define m1 where "m1 = fold (gauss_pivot P (i * 8 + j) i j) [i * 8 + j + 1..<pkNRows P] mat"
  have d1: "map length m1 = map length mat"
    unfolding m1_def by (rule map_length_fold) simp
  have d2: "map length (fold (gauss_clear P (i * 8 + j) i j) [0..<pkNRows P] m1) = map length m1"
    by (rule map_length_fold) simp
  from assms Some have "mat' = mat \<or> mat' = fold (gauss_clear P (i * 8 + j) i j) [0..<pkNRows P] m1"
    by (simp add: gauss_row_def Let_def m1_def split: if_splits)
  with d1 d2 Some show ?thesis by auto
qed

lemma gauss_rows_dims:
  "fold (gauss_row P i) js ms = Some mat' \<Longrightarrow>
   \<exists>mat. ms = Some mat \<and> map length mat' = map length mat"
proof (induction js arbitrary: ms)
  case Nil
  then show ?case by simp
next
  case (Cons j js)
  from Cons.IH [OF Cons.prems [simplified]] obtain m1
    where "gauss_row P i j ms = Some m1" "map length mat' = map length m1" by blast
  with gauss_row_dims [of P i j ms m1] show ?case by auto
qed

lemma gauss_blocks_dims:
  "fold (gauss_block P) is ms = Some mat' \<Longrightarrow>
   \<exists>mat. ms = Some mat \<and> map length mat' = map length mat"
proof (induction "is" arbitrary: ms)
  case Nil
  then show ?case by simp
next
  case (Cons i "is")
  from Cons.IH [OF Cons.prems [simplified]] obtain m1
    where "gauss_block P i ms = Some m1" "map length mat' = map length m1" by blast
  with gauss_rows_dims [of P i "[0..<8]" ms m1] show ?case by (auto simp: gauss_block_def)
qed

lemma gauss_dims: "gauss P mat = Some mat' \<Longrightarrow> map length mat' = map length mat"
  unfolding gauss_def by (drule gauss_blocks_dims) simp

lemma map_length_pk_cells [simp]: "map length (pk_cells P invs i j mat) = map length mat"
  unfolding pk_cells_def by (rule map_length_fold) (simp add: pk_cell_def)

lemma pk_fill_round_dims: "map length (fst (pk_fill_round P E L i s)) = map length (fst s)"
  by (simp add: pk_fill_round_def map_length_fold)

lemma pk_fill_rounds_dims:
  "map length (fst (fold (pk_fill_round P E L) xs s)) = map length (fst s)"
  by (induction xs arbitrary: s) (simp_all add: pk_fill_round_dims)

lemma pk_fill_dims: "map length (fst (pk_fill P E L s)) = map length (fst s)"
  by (simp add: pk_fill_def pk_fill_rounds_dims)

lemma fold_upt_Suc: "fold f [0..<Suc k] s = f k (fold f [0..<k] s)"
  by simp

lemma length_concat_const:
  "(\<And>x. x \<in> set xs \<Longrightarrow> length (g x) = c) \<Longrightarrow> length (concat (map g xs)) = length xs * c"
  by (induction xs) auto

lemma pk_rows_prefix:
  assumes len: "\<And>i. i < n \<Longrightarrow>
        length (subslice (mat ! i) (pkNRows P div 8) (pkNRows P div 8 + pkRowBytes P)) = pkRowBytes P"
    and "k \<le> n" and pk: "length pk = n * pkRowBytes P"
  shows "fold (pk_row P mat) [0..<k] pk =
         concat (map (\<lambda>i. subslice (mat ! i) (pkNRows P div 8) (pkNRows P div 8 + pkRowBytes P)) [0..<k])
         @ drop (k * pkRowBytes P) pk"
  using \<open>k \<le> n\<close>
proof (induction k)
  case 0
  then show ?case by simp
next
  case (Suc k)
  let ?row = "\<lambda>i. subslice (mat ! i) (pkNRows P div 8) (pkNRows P div 8 + pkRowBytes P)"
  let ?pre = "concat (map ?row [0..<k])"
  from Suc have IH: "fold (pk_row P mat) [0..<k] pk = ?pre @ drop (k * pkRowBytes P) pk"
    and k: "k < n" by simp_all
  have lpre: "length ?pre = k * pkRowBytes P"
    using len k by (subst length_concat_const [where c = "pkRowBytes P"]) auto
  have lrow: "length (?row k) = pkRowBytes P" using len k by simp
  have "(Suc k) * pkRowBytes P \<le> n * pkRowBytes P" using k by (metis Suc_leI mult_le_mono1)
  then have room: "k * pkRowBytes P + pkRowBytes P \<le> length pk" using pk by simp
  define rest where "rest = drop (k * pkRowBytes P) pk"
  have lrest: "pkRowBytes P \<le> length rest" using room by (simp add: rest_def)
  have "copy_slice (?pre @ rest) (k * pkRowBytes P) (length (?pre @ rest)) (?row k)
        = ?pre @ ?row k @ drop (pkRowBytes P) rest"
    using lpre lrow lrest by (simp add: copy_slice_def Let_def min_def)
  moreover have "drop (pkRowBytes P) rest = drop (Suc k * pkRowBytes P) pk"
    by (simp add: rest_def add.commute)
  ultimately have "pk_row P mat k (?pre @ drop (k * pkRowBytes P) pk)
        = ?pre @ ?row k @ drop (Suc k * pkRowBytes P) pk"
    by (simp add: pk_row_def rest_def)
  with IH show ?case by simp
qed

lemma pk_rows_all:
  assumes "\<And>i. i < n \<Longrightarrow>
        length (subslice (mat ! i) (pkNRows P div 8) (pkNRows P div 8 + pkRowBytes P)) = pkRowBytes P"
    and "length pk = n * pkRowBytes P"
  shows "fold (pk_row P mat) [0..<n] pk =
         concat (map (\<lambda>i. subslice (mat ! i) (pkNRows P div 8) (pkNRows P div 8 + pkRowBytes P)) [0..<n])"
  using pk_rows_prefix [OF assms(1) order_refl assms(2)] assms(2) by simp

lemma storeGf_fold:
  "a + 2 * t \<le> length sk \<Longrightarrow>
   fold (\<lambda>i sk. storeGf sk (a + 2 * i) (irr ! i)) [0..<t] sk
   = take a sk @ irr_bytes (take t irr) @ drop (a + 2 * t) sk" if "t \<le> length irr"
  using that
proof (induction t)
  case 0
  then show ?case by (simp add: irr_bytes_def)
next
  case (Suc t)
  let ?b = "irr_bytes (take t irr)"
  from Suc have IH: "fold (\<lambda>i sk. storeGf sk (a + 2 * i) (irr ! i)) [0..<t] sk
      = take a sk @ ?b @ drop (a + 2 * t) sk" and t: "t < length irr"
    and room: "a + 2 * t + 2 \<le> length sk" by simp_all
  have lb: "length ?b = 2 * t"
    using t unfolding irr_bytes_def
    by (subst length_concat_const [where c = 2]) auto
  define x where "x = sk ! (a + 2 * t)"
  define y where "y = sk ! Suc (a + 2 * t)"
  define rest where "rest = drop (a + 2 * Suc t) sk"
  have "drop (a + 2 * t) sk = x # drop (Suc (a + 2 * t)) sk"
    using room by (simp add: x_def Cons_nth_drop_Suc)
  also have "drop (Suc (a + 2 * t)) sk = y # drop (Suc (Suc (a + 2 * t))) sk"
    using room by (simp add: y_def Cons_nth_drop_Suc)
  finally have d: "drop (a + 2 * t) sk = x # y # rest"
    by (simp add: rest_def)
  have rest: "rest = drop (a + 2 * Suc t) sk" by (simp add: rest_def)
  have tk: "take (Suc t) irr = take t irr @ [irr ! t]"
    using t by (simp add: take_Suc_conv_app_nth)
  have la: "length (take a sk) = a" using room by simp
  have "storeGf (take a sk @ ?b @ x # y # rest) (a + 2 * t) (irr ! t)
        = take a sk @ ?b @ ucast (irr ! t AND 0xFF) # ucast (drop_bit 8 (irr ! t)) # rest"
    using la lb by (simp add: storeGf_def list_update_append)
  with IH d rest tk show ?case
    by (simp add: irr_bytes_def)
qed

lemma list8:
  assumes "length ys = 8"
  obtains a b c d e f g h where "ys = [a, b, c, d, e, f, g, h :: 'a]"
proof -
  from assms obtain a b c d e f g h where "ys = [a, b, c, d, e, f, g, h]"
    by (auto simp: length_Suc_conv numeral_eq_Suc)
  then show ?thesis using that by blast
qed

lemma store8_mid:
  assumes "length ys = 8"
  shows "store8 (xs @ ys @ zs) (length xs) v =
         xs @ [ucast (drop_bit 0 v AND 0xFF), ucast (drop_bit 8 v AND 0xFF),
               ucast (drop_bit 16 v AND 0xFF), ucast (drop_bit 24 v AND 0xFF),
               ucast (drop_bit 32 v AND 0xFF), ucast (drop_bit 40 v AND 0xFF),
               ucast (drop_bit 48 v AND 0xFF), ucast (drop_bit 56 v AND 0xFF)] @ zs"
proof -
  from assms obtain a b c d e f g h where "ys = [a, b, c, d, e, f, g, h]" by (rule list8)
  then show ?thesis
    by (simp add: store8_def list_update_append)
qed

lemma pivots_bytes:
  "[ucast (drop_bit 0 pivots_init AND 0xFF), ucast (drop_bit 8 pivots_init AND 0xFF),
    ucast (drop_bit 16 pivots_init AND 0xFF), ucast (drop_bit 24 pivots_init AND 0xFF),
    ucast (drop_bit 32 pivots_init AND 0xFF), ucast (drop_bit 40 pivots_init AND 0xFF),
    ucast (drop_bit 48 pivots_init AND 0xFF), ucast (drop_bit 56 pivots_init AND 0xFF)]
   = [0xFF, 0xFF, 0xFF, 0xFF, 0, 0, 0, 0 :: byte]"
  by (simp add: pivots_init_def)

lemma minimalPolynomial_sized:
  "length out = sysT P \<Longrightarrow>
   minimalPolynomial P E out f =
     (case fold (mp_column P E) [0..<sysT P] (Some (mp_matrix P E f)) of
        None \<Rightarrow> (False, out)
      | Some mat \<Rightarrow> (True, map (nth (mat ! sysT P)) [0..<sysT P]))"
  by (simp add: minimalPolynomial_def fill_eq_map split: option.splits)

lemma minimalPolynomial_indep:
  assumes "length out = sysT P" "length out' = sysT P"
  shows "fst (minimalPolynomial P E out f) = fst (minimalPolynomial P E out' f)"
    and "fst (minimalPolynomial P E out f) \<Longrightarrow>
         snd (minimalPolynomial P E out f) = snd (minimalPolynomial P E out' f)"
    and "\<not> fst (minimalPolynomial P E out f) \<Longrightarrow> snd (minimalPolynomial P E out f) = out"
    and "length (snd (minimalPolynomial P E out f)) = sysT P"
  using assms by (simp_all add: minimalPolynomial_sized split: option.splits)

lemma pkGen_unfold:
  "pkGen P E pk sk perm pi pv =
     (if list_ex (same_priority (sorted_keys P perm)) [1..<2 ^ gfBits P] then (False, pk, pi)
      else
        let pi' = fill (2 ^ gfBits P) (\<lambda>i. ucast (sorted_keys P perm ! i AND gfMask P)) pi
        in case gauss P (parity_matrix P E sk pi') of
             None \<Rightarrow> (False, pk, pi')
           | Some mat \<Rightarrow> (True, fold (pk_row P mat) [0..<pkNRows P] pk, pi'))"
  by (simp add: pkGen_def sorted_keys_def parity_matrix_def Let_def)

lemma parity_matrix_dims:
  "map length (parity_matrix P E sk pi) = replicate (pkNRows P) (sysN P div 8)"
  by (simp add: parity_matrix_def Let_def pk_fill_dims)

lemma row_bytes:
  assumes "wf_params P"
  shows "pkNRows P div 8 + pkRowBytes P = sysN P div 8"
proof -
  from assms obtain a b where a: "sysN P = 8 * a" and b: "pkNRows P = 8 * b"
    and lt: "pkNRows P < sysN P"
    by (auto simp: wf_params_def mod_eq_0_iff_dvd elim!: dvdE)
  from a b lt have "b < a" by simp
  then have "(8 * a - 8 * b + 7) div 8 = a - b" by simp
  with a b \<open>b < a\<close> show ?thesis
    by (simp add: pkRowBytes_def pkNCols_def)
qed

lemma pkGen_sized:
  assumes wf: "wf_params P" and pi: "length pi = 2 ^ gfBits P"
    and pk: "length pk = PublicKeySize P"
  shows "pkGen P E pk sk perm pi pv =
     (if list_ex (same_priority (sorted_keys P perm)) [1..<2 ^ gfBits P] then (False, pk, pi)
      else
        let pi' = map (\<lambda>i. ucast (sorted_keys P perm ! i AND gfMask P)) [0..<2 ^ gfBits P]
        in case gauss P (parity_matrix P E sk pi') of
             None \<Rightarrow> (False, pk, pi')
           | Some mat \<Rightarrow>
               (True,
                concat (map (\<lambda>i. subslice (mat ! i) (pkNRows P div 8) (pkNRows P div 8 + pkRowBytes P))
                          [0..<pkNRows P]),
                pi'))"
proof -
  have rows: "fold (pk_row P mat) [0..<pkNRows P] pk =
        concat (map (\<lambda>i. subslice (mat ! i) (pkNRows P div 8) (pkNRows P div 8 + pkRowBytes P))
                  [0..<pkNRows P])"
    if g: "gauss P (parity_matrix P E sk pi') = Some mat" for pi' mat
  proof (rule pk_rows_all)
    from gauss_dims [OF g] have ml: "map length mat = replicate (pkNRows P) (sysN P div 8)"
      by (simp add: parity_matrix_dims)
    then have lm: "length mat = pkNRows P" by (metis length_map length_replicate)
    fix i assume i: "i < pkNRows P"
    with ml lm have "length (mat ! i) = sysN P div 8"
      by (metis nth_map nth_replicate)
    then show "length (subslice (mat ! i) (pkNRows P div 8) (pkNRows P div 8 + pkRowBytes P))
               = pkRowBytes P"
      using row_bytes [OF wf] by (simp add: subslice_def)
  next
    show "length pk = pkNRows P * pkRowBytes P"
      using wf pk by (simp add: wf_params_def)
  qed
  show ?thesis
  proof (cases "list_ex (same_priority (sorted_keys P perm)) [1..<2 ^ gfBits P]")
    case True
    then show ?thesis by (simp add: pkGen_unfold)
  next
    case False
    define pi' where "pi' = map (\<lambda>i. ucast (sorted_keys P perm ! i AND gfMask P) :: 16 word)
                              [0..<2 ^ gfBits P]"
    have f: "fill (2 ^ gfBits P) (\<lambda>i. ucast (sorted_keys P perm ! i AND gfMask P)) pi = pi'"
      using pi by (simp add: fill_eq_map pi'_def)
    show ?thesis
    proof (cases "gauss P (parity_matrix P E sk pi')")
      case None
      with False f show ?thesis by (simp add: pkGen_unfold Let_def pi'_def)
    next
      case (Some mat)
      with False f rows [OF Some] show ?thesis by (simp add: pkGen_unfold Let_def pi'_def)
    qed
  qed
qed

lemma pkGen_indep:
  assumes wf: "wf_params P"
    and "length pi = 2 ^ gfBits P" "length pk = PublicKeySize P"
    and "length pi' = 2 ^ gfBits P" "length pk' = PublicKeySize P"
  shows "fst (pkGen P E pk sk perm pi pv) = fst (pkGen P E pk' sk perm pi' pv')"
    and "fst (pkGen P E pk sk perm pi pv) \<Longrightarrow>
         pkGen P E pk sk perm pi pv = pkGen P E pk' sk perm pi' pv'"
    and "\<not> fst (pkGen P E pk sk perm pi pv) \<Longrightarrow> fst (snd (pkGen P E pk sk perm pi pv)) = pk"
    and "length (snd (snd (pkGen P E pk sk perm pi pv))) = 2 ^ gfBits P"
  using assms by (auto simp: pkGen_sized Let_def split: option.splits if_splits)

lemma length_irr_bytes: "length (irr_bytes irr) = 2 * length irr"
  unfolding irr_bytes_def by (subst length_concat_const [where c = 2]) auto

lemma final_sk:
  assumes wf: "wf_params P"
    and s: "length s = 32" and mid: "length mid = 8" and ib: "length ib = irrBytes P"
    and tail: "length tail = condBytes P + sysN P div 8"
    and r: "sysN P div 8 \<le> length r"
  shows "store8
           (copy_slice
              (take (32 + 8 + irrBytes P) (s @ mid @ ib @ tail)
               @ fill (condBytes P) cbf (drop (32 + 8 + irrBytes P) (s @ mid @ ib @ tail)))
              (sBase P) (sBase P + sysN P div 8) (subslice r 0 (sysN P div 8)))
           32 pivots_init
         = s @ [0xFF, 0xFF, 0xFF, 0xFF, 0, 0, 0, 0] @ ib
           @ map cbf [0..<condBytes P] @ take (sysN P div 8) r"
proof -
  let ?c = "map cbf [0..<condBytes P]"
  have 1: "take (32 + 8 + irrBytes P) (s @ mid @ ib @ tail) = s @ mid @ ib"
    using s mid ib by simp
  have 2: "drop (32 + 8 + irrBytes P) (s @ mid @ ib @ tail) = tail"
    using s mid ib by simp
  have 3: "fill (condBytes P) cbf tail = ?c @ drop (condBytes P) tail"
    using tail by (simp add: fill_prefix)
  have 4: "length (s @ mid @ ib @ ?c) = sBase P"
    using s mid ib by (simp add: sBase_def)
  have 5: "length (drop (condBytes P) tail) = sysN P div 8" using tail by simp
  have "copy_slice ((s @ mid @ ib @ ?c) @ drop (condBytes P) tail)
          (sBase P) (sBase P + sysN P div 8) (subslice r 0 (sysN P div 8))
        = (s @ mid @ ib @ ?c) @ take (sysN P div 8) r"
    using 4 5 r unfolding copy_slice_def subslice_def Let_def
    by (simp add: min_def del: append_assoc)
  then have 6: "copy_slice
              (take (32 + 8 + irrBytes P) (s @ mid @ ib @ tail)
               @ fill (condBytes P) cbf (drop (32 + 8 + irrBytes P) (s @ mid @ ib @ tail)))
              (sBase P) (sBase P + sysN P div 8) (subslice r 0 (sysN P div 8))
        = s @ mid @ (ib @ ?c @ take (sysN P div 8) r)"
    unfolding 1 2 3 by simp
  have "store8 (s @ mid @ (ib @ ?c @ take (sysN P div 8) r)) (length s) pivots_init
        = s @ [0xFF, 0xFF, 0xFF, 0xFF, 0, 0, 0, 0] @ (ib @ ?c @ take (sysN P div 8) r)"
    unfolding store8_mid [OF mid] pivots_bytes ..
  with 6 s show ?thesis by simp
qed

lemma sizes:
  assumes "wf_params P"
  shows "40 + 2 * sysT P + (condBytes P + sysN P div 8) = PrivateKeySize P"
    and "32 \<le> rLen P" and "sysN P div 8 \<le> rLen P"
  using assms by (simp_all add: wf_params_def sBase_def irrBytes_def rLen_def)

lemma expand_Inr:
  "xof E (64 # s) = Inr stream \<Longrightarrow> expand P E s = map stream [0..<rLen P]"
  by (simp add: expand_def shake256_def fill_eq_map)

lemma shake256_sized:
  "length r = rLen P \<Longrightarrow>
   shake256 E r (64 # s) =
     (case xof E (64 # s) of Inl err \<Rightarrow> (Some err, r) | Inr stream \<Rightarrow> (None, expand P E s))"
  by (simp add: shake256_def expand_def fill_eq_map split: sum.splits)

lemma length_expand: "length (expand P E s) = rLen P"
  by (simp add: expand_def shake256_def split: sum.splits)

lemma length_next_seed: "wf_params P \<Longrightarrow> length (next_seed P E s) = 32"
  by (simp add: next_seed_def length_expand rLen_def)

lemma iteration_attempt:
  assumes wf: "wf_params P" and sz: "sized P st"
    and seed: "st_seed st = 64 # s" and ls: "length s = 32"
  shows "case attempt P E s of
           Failure err \<Rightarrow> iteration P E st = Done (Panic err)
         | Accepted pk sk \<Rightarrow> iteration P E st = Done (Keys pk sk)
         | Rejected \<Rightarrow>
             (\<exists>st'. iteration P E st = Again st' \<and> sized P st' \<and>
                    st_seed st' = 64 # next_seed P E s)"
proof (cases "xof E (64 # s)")
  case (Inl err)
  have "subslice (64 # s) 0 33 = 64 # s" using ls by (simp add: subslice_def)
  with Inl seed show ?thesis
    by (simp add: attempt_def iteration_def shake256_def)
next
  case (Inr stream)
  define r where "r = expand P E s"
  define sk1 where "sk1 = s @ drop 32 (st_sk st)"
  define f where "f = cand_f P r"
  define z where "z = replicate (sysT P) (0 :: gf)"
  define irr where "irr = snd (minimalPolynomial P E (st_irr st) f)"
  define sk2 where "sk2 = s @ take 8 (drop 32 (st_sk st)) @ irr_bytes irr
                          @ drop (40 + 2 * sysT P) (st_sk st)"
  define perm where "perm = cand_perm P r"
  define res where "res = pkGen P E (st_pk st) (irr_bytes irr) perm (st_pi st) pivots_init"
  from sz have len: "length (st_pk st) = PublicKeySize P" "length (st_sk st) = PrivateKeySize P"
      "length (st_r st) = rLen P" "length (st_f st) = sysT P" "length (st_irr st) = sysT P"
      "length (st_perm st) = 2 ^ gfBits P" "length (st_pi st) = 2 ^ gfBits P"
    by (simp_all add: sized_def)
  note sizes = sizes [OF wf]
  have lr: "length r = rLen P" by (simp add: r_def length_expand)
  have sub: "subslice (st_seed st) 0 33 = 64 # s" using ls seed by (simp add: subslice_def)
  have sh: "shake256 E (st_r st) (subslice (st_seed st) 0 33) = (None, r)"
    using Inr len by (simp add: sub shake256_sized r_def)
  have c1: "copy_slice (st_sk st) 0 32 (drop (Suc 0) (st_seed st)) = sk1"
    using ls seed len sizes by (simp add: copy_slice_def sk1_def)
  have c2: "copy_slice (st_seed st) (Suc 0) (length (st_seed st)) (drop (length r - 32) r)
            = 64 # next_seed P E s"
    using ls seed lr sizes by (simp add: copy_slice_def next_seed_def r_def)
  have c3: "fill (sysT P) (\<lambda>i. loadGf P (drop (2 * i) (subslice r (irrPolys P) (seedIndex P))))
              (st_f st) = f"
    using len by (simp add: fill_eq_map f_def cand_f_def)
  have c4: "fill (2 ^ gfBits P)
              (\<lambda>i. load4 (drop (4 * i) (subslice r (permIndex P) (irrPolys P)))) (st_perm st) = perm"
    using len by (simp add: fill_eq_map perm_def cand_perm_def)
  have lz: "length z = sysT P" by (simp add: z_def)
  note mp = minimalPolynomial_indep [OF len(5) lz, of E f]
  have lsk1: "length sk1 = PrivateKeySize P" using ls len sizes by (simp add: sk1_def)
  have lf: "length f = sysT P" by (simp add: f_def cand_f_def)
  have lirr: "length irr = sysT P" using mp(4) by (simp add: irr_def)
  have lperm: "length perm = 2 ^ gfBits P" by (simp add: perm_def cand_perm_def)
  show ?thesis
  proof (cases "fst (minimalPolynomial P E (st_irr st) f)")
    case False
    then have mpF: "minimalPolynomial P E (st_irr st) f = (False, st_irr st)"
      using mp(3) by (simp add: prod_eq_iff)
    from False mp(1) have "\<not> fst (minimalPolynomial P E z f)" by simp
    then have a: "attempt P E s = Rejected"
      using Inr by (simp add: attempt_def Let_def r_def [symmetric] f_def [symmetric]
          z_def [symmetric] split_beta)
    have "iteration P E st = Again (st\<lparr>st_sk := sk1, st_seed := 64 # next_seed P E s,
             st_r := r, st_f := f, st_irr := st_irr st\<rparr>)"
      by (simp add: iteration_def sh c1 c2 c3 mpF Let_def)
    moreover have "sized P (st\<lparr>st_sk := sk1, st_seed := 64 # next_seed P E s,
             st_r := r, st_f := f, st_irr := st_irr st\<rparr>)"
      using len lsk1 lr lf wf by (simp add: sized_def length_next_seed)
    ultimately show ?thesis using a by simp
  next
    case True
    then have mpT: "minimalPolynomial P E (st_irr st) f = (True, irr)"
      by (simp add: irr_def prod_eq_iff)
    from True mp(1,2) have mpz: "minimalPolynomial P E z f = (True, irr)"
      by (simp add: irr_def prod_eq_iff)
    have st: "fold (\<lambda>i sk. storeGf sk (40 + 2 * i) (irr ! i)) [0..<sysT P] sk1 = sk2"
    proof -
      have "sysT P \<le> length irr" using lirr by simp
      moreover have "40 + 2 * sysT P \<le> length sk1" using lsk1 sizes by simp
      ultimately have "fold (\<lambda>i sk. storeGf sk (40 + 2 * i) (irr ! i)) [0..<sysT P] sk1
          = take 40 sk1 @ irr_bytes (take (sysT P) irr) @ drop (40 + 2 * sysT P) sk1"
        by (rule storeGf_fold)
      moreover have "take 40 sk1 = s @ take 8 (drop 32 (st_sk st))"
        using ls by (simp add: sk1_def)
      moreover have "drop (40 + 2 * sysT P) sk1 = drop (40 + 2 * sysT P) (st_sk st)"
        using ls by (simp add: sk1_def)
      ultimately show ?thesis using lirr by (simp add: sk2_def)
    qed
    have lmid: "length (take 8 (drop 32 (st_sk st))) = 8" using len sizes by simp
    have lib: "length (irr_bytes irr) = irrBytes P"
      by (simp add: length_irr_bytes lirr irrBytes_def)
    have ltail: "length (drop (40 + 2 * sysT P) (st_sk st)) = condBytes P + sysN P div 8"
      using len sizes by simp
    have lsk2: "length sk2 = PrivateKeySize P"
      using ls lmid lib ltail sizes by (simp add: sk2_def irrBytes_def)
    have sl: "subslice sk2 40 (40 + irrBytes P) = irr_bytes irr"
      using ls lmid lib by (simp add: subslice_def sk2_def)
    have lzpk: "length (replicate (PublicKeySize P) (0 :: byte)) = PublicKeySize P"
      and lzpi: "length (replicate (2 ^ gfBits P) (0 :: 16 word)) = 2 ^ gfBits P" by simp_all
    note pg = pkGen_indep(1) [OF wf len(7) len(1) lzpi lzpk,
                 of E "irr_bytes irr" perm pivots_init pivots_init]
              pkGen_indep(2) [OF wf len(7) len(1) lzpi lzpk,
                 of E "irr_bytes irr" perm pivots_init pivots_init]
              pkGen_indep(3) [OF wf len(7) len(1) lzpi lzpk,
                 of E "irr_bytes irr" perm pivots_init]
              pkGen_indep(4) [OF wf len(7) len(1) lzpi lzpk,
                 of E "irr_bytes irr" perm pivots_init]
    have it: "iteration P E st =
        (if \<not> fst res
         then Again (st\<lparr>st_pk := fst (snd res), st_sk := sk2, st_seed := 64 # next_seed P E s,
                st_r := r, st_f := f, st_irr := irr, st_perm := perm, st_pi := snd (snd res)\<rparr>)
         else Done (Keys (fst (snd res))
                (store8
                   (copy_slice
                      (take (32 + 8 + irrBytes P) sk2
                       @ fill (condBytes P) (controlBits E (snd (snd res)) (gfBits P) (2 ^ gfBits P))
                           (drop (32 + 8 + irrBytes P) sk2))
                      (sBase P) (sBase P + sysN P div 8) (subslice r 0 (sysN P div 8)))
                   32 pivots_init)))"
      by (simp add: iteration_def sh c1 c2 c3 c4 mpT st sl Let_def res_def split_beta)
    have at: "attempt P E s =
        (let res' = pkGen P E (replicate (PublicKeySize P) 0) (irr_bytes irr) perm
                      (replicate (2 ^ gfBits P) 0) pivots_init
         in if \<not> fst res' then Rejected
            else Accepted (fst (snd res'))
                   (s @ [0xFF, 0xFF, 0xFF, 0xFF, 0, 0, 0, 0] @ irr_bytes irr
                    @ map (controlBits E (snd (snd res')) (gfBits P) (2 ^ gfBits P)) [0..<condBytes P]
                    @ take (sysN P div 8) r))"
      using Inr mpz
      by (simp add: attempt_def Let_def r_def [symmetric] f_def [symmetric]
          z_def [symmetric] perm_def [symmetric] split_beta)
    show ?thesis
    proof (cases "fst res")
      case False
      with pg(1) have a: "attempt P E s = Rejected" by (simp add: at res_def Let_def)
      from False pg(3) have "fst (snd res) = st_pk st" by (simp add: res_def)
      moreover have "length (snd (snd res)) = 2 ^ gfBits P" using pg(4) by (simp add: res_def)
      ultimately have "sized P (st\<lparr>st_pk := fst (snd res), st_sk := sk2,
            st_seed := 64 # next_seed P E s, st_r := r, st_f := f, st_irr := irr,
            st_perm := perm, st_pi := snd (snd res)\<rparr>)"
        using len lsk2 lr lf lirr lperm wf by (simp add: sized_def length_next_seed)
      with False it a show ?thesis by simp
    next
      case True
      with pg(1,2) have eq: "pkGen P E (replicate (PublicKeySize P) 0) (irr_bytes irr) perm
                      (replicate (2 ^ gfBits P) 0) pivots_init = res"
        and ok: "fst (pkGen P E (replicate (PublicKeySize P) 0) (irr_bytes irr) perm
                      (replicate (2 ^ gfBits P) 0) pivots_init)"
        by (simp_all add: res_def)
      have r': "sysN P div 8 \<le> length r" using lr sizes by simp
      have fin: "store8
           (copy_slice
              (take (32 + 8 + irrBytes P) sk2
               @ fill (condBytes P) (controlBits E (snd (snd res)) (gfBits P) (2 ^ gfBits P))
                   (drop (32 + 8 + irrBytes P) sk2))
              (sBase P) (sBase P + sysN P div 8) (subslice r 0 (sysN P div 8)))
           32 pivots_init
         = s @ [0xFF, 0xFF, 0xFF, 0xFF, 0, 0, 0, 0] @ irr_bytes irr
           @ map (controlBits E (snd (snd res)) (gfBits P) (2 ^ gfBits P)) [0..<condBytes P]
           @ take (sysN P div 8) r"
        unfolding sk2_def using final_sk [OF wf ls lmid lib ltail r'] .
      from True it fin have "iteration P E st = Done (Keys (fst (snd res))
           (s @ [0xFF, 0xFF, 0xFF, 0xFF, 0, 0, 0, 0] @ irr_bytes irr
           @ map (controlBits E (snd (snd res)) (gfBits P) (2 ^ gfBits P)) [0..<condBytes P]
           @ take (sysN P div 8) r))" by simp
      moreover from True have "attempt P E s = Accepted (fst (snd res))
           (s @ [0xFF, 0xFF, 0xFF, 0xFF, 0, 0, 0, 0] @ irr_bytes irr
           @ map (controlBits E (snd (snd res)) (gfBits P) (2 ^ gfBits P)) [0..<condBytes P]
           @ take (sysN P div 8) r)"
        unfolding at eq Let_def by simp
      ultimately show ?thesis by simp
    qed
  qed
qed

lemma seed_seq_shift: "seed_seq P E s (Suc i) = seed_seq P E (next_seed P E s) i"
  by (induction i) simp_all

lemma length_seed_seq:
  "wf_params P \<Longrightarrow> length s = 32 \<Longrightarrow> length (seed_seq P E s i) = 32"
  by (cases i) (simp_all add: length_next_seed)

lemma loop_step:
  assumes wf: "wf_params P" and sz: "sized P st"
    and seed: "st_seed st = 64 # s" and ls: "length s = 32"
  shows "attempt P E s \<noteq> Rejected \<Longrightarrow>
           \<exists>y. deriveKeyPair_loop P E st = Some y \<and> verdict y = attempt P E s"
    and "attempt P E s = Rejected \<Longrightarrow>
           \<exists>st'. iteration P E st = Again st' \<and> sized P st' \<and>
                 st_seed st' = 64 # next_seed P E s \<and>
                 deriveKeyPair_loop P E st = deriveKeyPair_loop P E st'"
  using iteration_attempt [OF wf sz seed ls, of E]
  by (cases "attempt P E s"; auto simp: deriveKeyPair_loop.simps [of P E st] verdict_def)+

lemma loop_trace:
  assumes run: "deriveKeyPair_loop P E st = Some y"
  shows "wf_params P \<longrightarrow> (\<forall>s. sized P st \<and> st_seed st = 64 # s \<and> length s = 32 \<longrightarrow>
           (\<exists>N. (\<forall>i<N. attempt P E (seed_seq P E s i) = Rejected) \<and>
                attempt P E (seed_seq P E s N) = verdict y))"
proof -
  define Q where "Q = (\<lambda>(x :: (params \<times> env) \<times> loop_state) y.
      case x of ((P, E), st) \<Rightarrow>
        wf_params P \<longrightarrow> (\<forall>s. sized P st \<and> st_seed st = 64 # s \<and> length s = 32 \<longrightarrow>
           (\<exists>N. (\<forall>i<N. attempt P E (seed_seq P E s i) = Rejected) \<and>
                attempt P E (seed_seq P E s N) = verdict y)))"
  have "Q ((P, E), st) y"
  proof (rule deriveKeyPair_loop.raw_induct [where Pa = Q, OF _ run])
    fix loop :: "params \<Rightarrow> env \<Rightarrow> loop_state \<Rightarrow> outcome option" and P E st y
    assume IH: "\<And>P E st y. loop P E st = Some y \<Longrightarrow> Q ((P, E), st) y"
      and body: "(case iteration P E st of Again st' \<Rightarrow> loop P E st' | Done out \<Rightarrow> Some out) = Some y"
    show "Q ((P, E), st) y"
      unfolding Q_def
    proof (clarify)
      fix s
      assume wf: "wf_params P" and sz: "sized P st" and seed: "st_seed st = 64 # s"
        and ls: "length s = 32"
      note ia = iteration_attempt [OF wf sz seed ls, of E]
      show "\<exists>N. (\<forall>i<N. attempt P E (seed_seq P E s i) = Rejected) \<and>
                attempt P E (seed_seq P E s N) = verdict y"
      proof (cases "attempt P E s")
        case (Failure err)
        with ia body have "y = Panic err" by simp
        with Failure have "attempt P E (seed_seq P E s 0) = verdict y"
          by (simp add: verdict_def)
        then show ?thesis by (intro exI [of _ 0]) simp
      next
        case (Accepted pk sk)
        with ia body have "y = Keys pk sk" by simp
        with Accepted have "attempt P E (seed_seq P E s 0) = verdict y"
          by (simp add: verdict_def)
        then show ?thesis by (intro exI [of _ 0]) simp
      next
        case Rejected
        with ia obtain st' where st': "iteration P E st = Again st'" "sized P st'"
          "st_seed st' = 64 # next_seed P E s" by auto
        with body have "loop P E st' = Some y" by simp
        from IH [OF this] wf st' length_next_seed [OF wf, of E s]
        obtain N where N: "\<forall>i<N. attempt P E (seed_seq P E (next_seed P E s) i) = Rejected"
          "attempt P E (seed_seq P E (next_seed P E s) N) = verdict y"
          unfolding Q_def by auto
        have "\<forall>i<Suc N. attempt P E (seed_seq P E s i) = Rejected"
        proof (intro allI impI)
          fix i assume "i < Suc N"
          then show "attempt P E (seed_seq P E s i) = Rejected"
            using N(1) Rejected by (cases i) (simp_all add: seed_seq_shift del: seed_seq.simps(2))
        qed
        moreover have "attempt P E (seed_seq P E s (Suc N)) = verdict y"
          using N(2) by (simp add: seed_seq_shift del: seed_seq.simps(2))
        ultimately show ?thesis by blast
      qed
    qed
  qed
  then show ?thesis by (simp add: Q_def)
qed

lemma loop_run:
  assumes wf: "wf_params P" and ls: "length s = 32"
    and rej: "\<forall>i<N. attempt P E (seed_seq P E s i) = Rejected"
  shows "sized P st \<Longrightarrow> st_seed st = 64 # s \<Longrightarrow>
         \<exists>st'. sized P st' \<and> st_seed st' = 64 # seed_seq P E s N \<and>
               deriveKeyPair_loop P E st = deriveKeyPair_loop P E st'"
  using rej
proof (induction N)
  case 0
  then show ?case by auto
next
  case (Suc N)
  then obtain st' where st': "sized P st'" "st_seed st' = 64 # seed_seq P E s N"
    "deriveKeyPair_loop P E st = deriveKeyPair_loop P E st'" by auto
  from Suc.prems have "attempt P E (seed_seq P E s N) = Rejected" by simp
  from loop_step(2) [OF wf st'(1,2) length_seed_seq [OF wf ls] this] st'(3)
  show ?case by auto
qed

lemma loop_decided:
  assumes wf: "wf_params P" and ls: "length s = 32"
    and sz: "sized P st" and seed: "st_seed st = 64 # s"
    and rej: "\<forall>i<N. attempt P E (seed_seq P E s i) = Rejected"
    and fin: "attempt P E (seed_seq P E s N) \<noteq> Rejected"
  shows "\<exists>y. deriveKeyPair_loop P E st = Some y \<and> verdict y = attempt P E (seed_seq P E s N)"
proof -
  from loop_run [OF wf ls rej sz seed] obtain st' where st': "sized P st'"
    "st_seed st' = 64 # seed_seq P E s N"
    "deriveKeyPair_loop P E st = deriveKeyPair_loop P E st'" by auto
  from loop_step(1) [OF wf st'(1,2) length_seed_seq [OF wf ls] fin] st'(3)
  show ?thesis by simp
qed

lemma verdict_inj: "verdict y = verdict y' \<Longrightarrow> y = y'"
  by (cases y; cases y') (simp_all add: verdict_def)

lemma loop_indep:
  assumes wf: "wf_params P" and ls: "length s = 32"
    and sz1: "sized P st1" and seed1: "st_seed st1 = 64 # s"
    and sz2: "sized P st2" and seed2: "st_seed st2 = 64 # s"
  shows "deriveKeyPair_loop P E st1 = deriveKeyPair_loop P E st2"
proof -
  have one: "deriveKeyPair_loop P E b = Some y"
    if run: "deriveKeyPair_loop P E a = Some y" and a: "sized P a" "st_seed a = 64 # s"
      and b: "sized P b" "st_seed b = 64 # s" for a b y
  proof -
    from loop_trace [OF run] wf a ls obtain N
      where N: "\<forall>i<N. attempt P E (seed_seq P E s i) = Rejected"
        "attempt P E (seed_seq P E s N) = verdict y" by auto
    have "attempt P E (seed_seq P E s N) \<noteq> Rejected"
      unfolding N(2) by (cases y) (simp_all add: verdict_def)
    from loop_decided [OF wf ls b N(1) this] N(2) show ?thesis
      by (auto dest: verdict_inj)
  qed
  show ?thesis
  proof (cases "deriveKeyPair_loop P E st1")
    case None
    show ?thesis
    proof (cases "deriveKeyPair_loop P E st2")
      case (Some y)
      from one [OF Some sz2 seed2 sz1 seed1] None show ?thesis by simp
    qed (simp add: None)
  next
    case (Some y)
    from one [OF Some sz1 seed1 sz2 seed2] Some show ?thesis by simp
  qed
qed

lemma init_state_sized: "sized P (init_state P e)"
  by (simp add: sized_def init_state_def copy_slice_def Let_def min_def)

lemma init_state_seed: "length s = 32 \<Longrightarrow> st_seed (init_state P s) = 64 # s"
  by (simp add: init_state_def copy_slice_def)

lemma rejects_iff:
  assumes "wf_params P" "length s = 32"
  shows "rejects P E s \<longleftrightarrow> attempt P E s = Rejected"
  using iteration_attempt [OF assms(1) init_state_sized init_state_seed [OF assms(2)] assms(2), of E]
  by (cases "attempt P E s") (auto simp: rejects_def)

lemma accepts_iff:
  assumes "wf_params P" "length s = 32"
  shows "accepts P E s \<longleftrightarrow> (\<exists>pk sk. attempt P E s = Accepted pk sk)"
  using iteration_attempt [OF assms(1) init_state_sized init_state_seed [OF assms(2)] assms(2), of E]
  by (cases "attempt P E s") (auto simp: accepts_def)

lemma attempt_Accepted:
  assumes "attempt P E s = Accepted pk sk"
  shows "\<exists>irr pi.
           minimalPolynomial P E (replicate (sysT P) 0) (cand_f P (expand P E s)) = (True, irr) \<and>
           pkGen P E (replicate (PublicKeySize P) 0) (irr_bytes irr) (cand_perm P (expand P E s))
             (replicate (2 ^ gfBits P) 0) pivots_init = (True, pk, pi) \<and>
           sk = s @ [0xFF, 0xFF, 0xFF, 0xFF, 0, 0, 0, 0] @ irr_bytes irr
                @ map (controlBits E pi (gfBits P) (2 ^ gfBits P)) [0..<condBytes P]
                @ take (sysN P div 8) (expand P E s)"
  using assms
  by (auto simp: attempt_def Let_def split: sum.splits prod.splits if_splits)

lemma deriveKeyPair_Keys:
  assumes wf: "wf_params P" and ls: "length e = 32"
    and run: "deriveKeyPair P E e = Some (Keys pk sk)"
  shows "\<exists>N. (\<forall>i<N. attempt P E (seed_seq P E e i) = Rejected) \<and>
             attempt P E (seed_seq P E e N) = Accepted pk sk"
  using loop_trace [OF run [unfolded deriveKeyPair_def]] wf ls
    init_state_sized [of P e] init_state_seed [OF ls, of P]
  by (simp add: verdict_def)

lemma verdict_Accepted: "verdict y = Accepted pk sk \<Longrightarrow> y = Keys pk sk"
  by (cases y) (simp_all add: verdict_def)

lemma five_fields:
  assumes "length a = 32" "length b = 8" "length c = n" "length d = m"
  shows "subslice (a @ b @ c @ d @ e) 0 32 = a"
    and "subslice (a @ b @ c @ d @ e) 32 40 = b"
    and "subslice (a @ b @ c @ d @ e) 40 (40 + n) = c"
    and "subslice (a @ b @ c @ d @ e) (40 + n) (40 + n + m) = d"
    and "drop (40 + n + m) (a @ b @ c @ d @ e) = e"
  using assms by (simp_all add: subslice_def)



section \<open>The claims\<close>

text \<open>
  C6. The specification says that \<open>isZeroMask(a)\<close> is all-ones for \<open>a = 0\<close>, and the
  comment of the function says "a mask with all bits set". At \<open>a = 0\<close> the function
  returns the \<open>uint16\<close> value \<open>0x1FFF\<close>: the shift by 19 leaves 13 of the 32 one
  bits, so the bits 13 to 15 of the mask are clear.
\<close>

theorem isZeroMask_zero_value: "isZeroMask 0 = 0x1FFF \<and> isZeroMask 0 \<noteq> 0xFFFF"
  by (simp add: isZeroMask_eq)

text \<open>
  C7. \<open>DeriveKeyPair\<close> on a seed whose length is not 32 panics with its message at once:
  the result is the panic whatever the collaborators are, so no expansion, resampling
  or key derivation has taken place.
\<close>

theorem DeriveKeyPair_wrong_length:
  "length seed \<noteq> seedSize \<Longrightarrow>
   DeriveKeyPair P E seed = Some (Panic ''seed must be of length EncapsulationSeedSize'')"
  by (simp add: DeriveKeyPair_def)

theorem DeriveKeyPair_wrong_length_witness:
  "length [1, 2, 3 :: byte] \<noteq> seedSize \<and>
   DeriveKeyPair mceliece348864 toy_env [1, 2, 3]
     = Some (Panic ''seed must be of length EncapsulationSeedSize'')"
  using DeriveKeyPair_wrong_length [of "[1, 2, 3]" mceliece348864 toy_env]
  by (simp add: seedSize_def)

text \<open>
  C10. \<open>UnmarshalBinaryPrivateKey\<close> on a buffer of \<open>PrivateKeySize\<close> bytes succeeds and
  returns the all-zero private key, whatever the buffer holds; so unmarshalling the
  marshalled form of a private key that has a nonzero byte does not give the key back.
\<close>

theorem UnmarshalBinaryPrivateKey_zero:
  "length buf = PrivateKeySize P \<Longrightarrow>
   UnmarshalBinaryPrivateKey P buf = Inr (replicate (PrivateKeySize P) 0) \<and>
   ((\<exists>b \<in> set buf. b \<noteq> 0) \<longrightarrow>
      UnmarshalBinaryPrivateKey P (MarshalBinary P buf) \<noteq> Inr buf)"
proof -
  assume len: "length buf = PrivateKeySize P"
  have m: "MarshalBinary P buf = buf"
    using len by (simp add: MarshalBinary_def copy_slice_def)
  have u: "UnmarshalBinaryPrivateKey P buf = Inr (replicate (PrivateKeySize P) 0)"
    using len by (simp add: UnmarshalBinaryPrivateKey_def)
  have "buf \<noteq> replicate (PrivateKeySize P) 0" if "\<exists>b \<in> set buf. b \<noteq> 0"
    using that by (metis in_set_replicate)
  with m u show ?thesis by auto
qed

theorem UnmarshalBinaryPrivateKey_zero_witness:
  "UnmarshalBinaryPrivateKey mceliece348864 (replicate 6492 1) = Inr (replicate 6492 0) \<and>
   UnmarshalBinaryPrivateKey mceliece348864 (MarshalBinary mceliece348864 (replicate 6492 1))
     \<noteq> Inr (replicate 6492 1)"
  using UnmarshalBinaryPrivateKey_zero [of "replicate 6492 1" mceliece348864]
  by (simp add: mceliece348864_def)

end
